theory Spec2Isabelle
  imports Main "HOL-Library.Word"
begin

section \<open>LRU-IPV replacement policy (gem5, \<open>mem/cache/replacement_policies/lru_ipv\<close>)\<close>

text \<open>
  The repository holds two variants of the policy \<open>LRUIPVRP\<close>: a lenient one whose
  constructor warns and falls back to an LRU-like mode when the associativity is not 16
  (first \<open>lru_ipv.cc\<close> with the third chunk of that file as its header), and a strict
  one whose constructor is fatal on a mismatch (second \<open>lru_ipv.cc\<close> chunk, header
  \<open>lru_ipv.hh\<close> with the \<open>constexpr\<close> table). Both are embedded below; the strict one
  carries the suffix \<open>_strict\<close>.

  C++ types: \<open>unsigned\<close> is \<open>32 word\<close>, \<open>uint8_t\<close> is \<open>8 word\<close>; a
  \<open>static_cast<uint8_t>\<close> is \<open>ucast\<close> (truncation), the integral promotion of a
  \<open>uint8_t\<close> to \<open>unsigned\<close> is \<open>ucast\<close> as well (zero extension).
\<close>

subsection \<open>Data model\<close>

text \<open>
  \<open>struct IPVReplData\<close>: one byte \<open>depth\<close>, default 0. The per-line objects live
  behind \<open>std::shared_ptr\<close>; the model keeps them in an explicit store indexed by the
  pointer, and every operation that writes through a pointer returns the updated store.
  Pointers are taken to be valid (the store is total): a null or dangling pointer is
  undefined behaviour in the source and not a branch of it.
\<close>

type_synonym data_ptr = nat

record IPVReplData =
  depth :: "8 word"

type_synonym store = "data_ptr \<Rightarrow> IPVReplData"

text \<open>
  Modelled from the spec: \<open>ReplaceableEntry\<close> is declared in gem5's
  \<open>replaceable_entry.hh\<close>, which is not among the sources. The spec describes a
  candidate as a pair of a state and a handle; the source reads only the member
  \<open>replacementData\<close> (the pointer to the per-line state). The handle stands for the
  identity of the entry that \<open>getVictim\<close> returns a pointer to.
\<close>

record ReplaceableEntry =
  handle :: nat
  replacementData :: data_ptr

text \<open>
  \<open>assert\<close> failing and \<open>fatal_if\<close> firing end the program; they are the two
  error values (\<open>Fatal\<close> carries the two numbers of its message). The assertion is
  modelled as written, that is, as compiled without \<open>NDEBUG\<close>. \<open>warn\<close> only emits a
  diagnostic, collected in a list.
\<close>

datatype error = AssertionFailure | Fatal "32 word" "32 word"

datatype diagnostic = Warn "32 word" "32 word"

subsection \<open>The depth table\<close>

text \<open>\<open>static constexpr unsigned IPV_K = 16;\<close>\<close>

definition IPV_K :: "32 word" where
  "IPV_K = 16"

text \<open>
  \<open>const unsigned LRUIPVRP::IPV[LRUIPVRP::IPV_K + 1]\<close>: promotion targets for
  positions 0..15, then the insertion depth at index 16.
\<close>

definition IPV :: "32 word list" where
  "IPV = [0, 0, 1, 0, 3, 0, 1, 2, 1, 0, 5, 1, 0, 0, 1, 11, 13]"

subsection \<open>Lenient variant\<close>

record LRUIPVRP =
  ways :: "32 word"
  useIpv :: bool

text \<open>
  Constructor: \<open>ways(p.numWays)\<close>, the member initialiser \<open>useIpv = false\<close>, then
  \<open>useIpv = (ways == IPV_K)\<close> and a warning when the fallback is taken.
\<close>

definition LRUIPVRP_ctor :: "32 word \<Rightarrow> LRUIPVRP \<times> diagnostic list" where
  "LRUIPVRP_ctor numWays =
     (let this0 = \<lparr>ways = numWays, useIpv = False\<rparr>;
          this1 = this0\<lparr>useIpv := (ways this0 = IPV_K)\<rparr>
      in if \<not> useIpv this1 then (this1, [Warn (ways this1) IPV_K]) else (this1, []))"

text \<open>\<open>instantiateEntry\<close>: \<open>std::make_shared<IPVReplData>()\<close>, a state with depth 0.\<close>

definition instantiateEntry :: "IPVReplData" where
  "instantiateEntry = \<lparr>depth = 0\<rparr>"

definition reset :: "LRUIPVRP \<Rightarrow> data_ptr \<Rightarrow> store \<Rightarrow> store" where
  "reset this rd s =
     (if useIpv this
      then s(rd := (s rd)\<lparr>depth := ucast (IPV ! unat IPV_K)\<rparr>)
      else s(rd := (s rd)\<lparr>depth := ucast (ways this - 1)\<rparr>))"

definition touch :: "LRUIPVRP \<Rightarrow> data_ptr \<Rightarrow> store \<Rightarrow> store" where
  "touch this rd s =
     (if useIpv this
      then (let cur = (ucast (depth (s rd)) :: 32 word);
                cur = (if cur \<ge> IPV_K then IPV_K - 1 else cur)
            in s(rd := (s rd)\<lparr>depth := ucast (IPV ! unat cur)\<rparr>))
      else s(rd := (s rd)\<lparr>depth := 0\<rparr>))"

definition invalidate :: "LRUIPVRP \<Rightarrow> data_ptr \<Rightarrow> store \<Rightarrow> store" where
  "invalidate this rd s = s"

text \<open>
  The expression \<open>static_pointer_cast<IPVReplData>(e->replacementData)->depth\<close>,
  read where an \<open>unsigned\<close> is expected.
\<close>

definition entry_depth :: "store \<Rightarrow> ReplaceableEntry \<Rightarrow> 32 word" where
  "entry_depth s e = ucast (depth (s (replacementData e)))"

text \<open>
  The range-for loop of \<open>getVictim\<close> over the candidates still to visit, with the local
  variables \<open>victim\<close> and \<open>worst\<close>.
\<close>

fun getVictim_loop ::
  "store \<Rightarrow> ReplaceableEntry list \<Rightarrow> ReplaceableEntry \<Rightarrow> 32 word
     \<Rightarrow> ReplaceableEntry \<times> 32 word" where
  "getVictim_loop s [] victim worst = (victim, worst)"
| "getVictim_loop s (e # es) victim worst =
     (if entry_depth s e > worst
      then getVictim_loop s es e (entry_depth s e)
      else getVictim_loop s es victim worst)"

text \<open>
  \<open>getVictim\<close>: the assertion, the initialisation from \<open>candidates[0]\<close>, and the loop
  over all candidates (the first one included). The store is returned beside the result:
  the function writes nothing, and the second component says so.
\<close>

definition getVictim ::
  "LRUIPVRP \<Rightarrow> ReplaceableEntry list \<Rightarrow> store \<Rightarrow> (error + ReplaceableEntry) \<times> store" where
  "getVictim this candidates s =
     (if candidates = [] then (Inl AssertionFailure, s)
      else (let victim = candidates ! 0;
                worst = entry_depth s victim
            in (Inr (fst (getVictim_loop s candidates victim worst)), s)))"

subsection \<open>Strict variant\<close>

text \<open>
  The header of the strict variant defines the table itself
  (\<open>static constexpr unsigned IPV[IPV_K + 1] = {...}\<close>) and has no \<open>useIpv\<close> member.
\<close>

definition IPV_K_strict :: "32 word" where
  "IPV_K_strict = 16"

definition IPV_strict :: "32 word list" where
  "IPV_strict = [0, 0, 1, 0, 3, 0, 1, 2, 1, 0, 5, 1, 0, 0, 1, 11, 13]"

record LRUIPVRP_strict =
  ways_strict :: "32 word"

text \<open>Constructor: \<open>fatal_if(ways != IPV_K, ...)\<close>.\<close>

definition LRUIPVRP_strict_ctor :: "32 word \<Rightarrow> error + LRUIPVRP_strict" where
  "LRUIPVRP_strict_ctor numWays =
     (let this0 = \<lparr>ways_strict = numWays\<rparr>
      in if ways_strict this0 \<noteq> IPV_K_strict
         then Inl (Fatal IPV_K_strict (ways_strict this0))
         else Inr this0)"

definition reset_strict :: "LRUIPVRP_strict \<Rightarrow> data_ptr \<Rightarrow> store \<Rightarrow> store" where
  "reset_strict this rd s =
     s(rd := (s rd)\<lparr>depth := ucast (IPV_strict ! unat IPV_K_strict)\<rparr>)"

definition touch_strict :: "LRUIPVRP_strict \<Rightarrow> data_ptr \<Rightarrow> store \<Rightarrow> store" where
  "touch_strict this rd s =
     (let cur = (ucast (depth (s rd)) :: 32 word);
          cur = (if cur \<ge> IPV_K_strict then IPV_K_strict - 1 else cur)
      in s(rd := (s rd)\<lparr>depth := ucast (IPV_strict ! unat cur)\<rparr>))"

definition invalidate_strict :: "LRUIPVRP_strict \<Rightarrow> data_ptr \<Rightarrow> store \<Rightarrow> store" where
  "invalidate_strict this rd s = s"

fun getVictim_loop_strict ::
  "store \<Rightarrow> ReplaceableEntry list \<Rightarrow> ReplaceableEntry \<Rightarrow> 32 word
     \<Rightarrow> ReplaceableEntry \<times> 32 word" where
  "getVictim_loop_strict s [] victim worst = (victim, worst)"
| "getVictim_loop_strict s (e # es) victim worst =
     (if entry_depth s e > worst
      then getVictim_loop_strict s es e (entry_depth s e)
      else getVictim_loop_strict s es victim worst)"

definition getVictim_strict ::
  "LRUIPVRP_strict \<Rightarrow> ReplaceableEntry list \<Rightarrow> store
     \<Rightarrow> (error + ReplaceableEntry) \<times> store" where
  "getVictim_strict this candidates s =
     (if candidates = [] then (Inl AssertionFailure, s)
      else (let victim = candidates ! 0;
                worst = entry_depth s victim
            in (Inr (fst (getVictim_loop_strict s candidates victim worst)), s)))"

section \<open>Properties\<close>

subsection \<open>Conversions between the byte and the word\<close>

lemma unat_ucast_8_32: "unat (ucast (a::8 word) :: 32 word) = unat a"
proof -
  have "unat a < 2 ^ 8" using unsigned_less [of a] by simp
  then have "unat a < 2 ^ 32" by simp
  then show ?thesis by (simp add: unsigned_ucast_eq take_bit_nat_eq_self)
qed

lemma ucast_up_less: "((ucast (a::8 word) :: 32 word) < ucast (b::8 word)) = (a < b)"
  by (simp add: word_less_nat_alt unat_ucast_8_32)

lemma ucast_up_le: "((ucast (a::8 word) :: 32 word) \<le> ucast (b::8 word)) = (a \<le> b)"
  by (simp add: word_le_nat_alt unat_ucast_8_32)

subsection \<open>The scan of \<open>getVictim\<close>\<close>

text \<open>
  What the loop returns when it is entered with \<open>worst\<close> the depth of \<open>victim\<close>:
  the final \<open>worst\<close> is the depth of the final \<open>victim\<close> and bounds every visited
  depth; the victim is either the initial one (nothing visited was deeper) or the first
  visited entry of that depth.
\<close>

lemma getVictim_loop_spec:
  "getVictim_loop s es v w = (v', w') \<Longrightarrow> w = entry_depth s v \<Longrightarrow>
     w' = entry_depth s v' \<and> w \<le> w' \<and> (\<forall>e \<in> set es. entry_depth s e \<le> w') \<and>
     ((v' = v \<and> (\<forall>e \<in> set es. entry_depth s e \<le> w)) \<or>
      (\<exists>i < length es. v' = es ! i \<and> w < entry_depth s (es ! i) \<and>
          (\<forall>j < i. entry_depth s (es ! j) < entry_depth s (es ! i))))"
proof (induction es arbitrary: v w)
  case Nil
  then show ?case by auto
next
  case (Cons e es)
  show ?case
  proof (cases "w < entry_depth s e")
    case True
    with Cons.prems have run: "getVictim_loop s es e (entry_depth s e) = (v', w')" by simp
    from Cons.IH [OF run refl]
    have a: "w' = entry_depth s v'" and b: "entry_depth s e \<le> w'"
      and c: "\<forall>x \<in> set es. entry_depth s x \<le> w'"
      and d: "(v' = e \<and> (\<forall>x \<in> set es. entry_depth s x \<le> entry_depth s e)) \<or>
      (\<exists>i < length es. v' = es ! i \<and> entry_depth s e < entry_depth s (es ! i) \<and>
          (\<forall>j < i. entry_depth s (es ! j) < entry_depth s (es ! i)))"
      by blast+
    from d have "\<exists>i < length (e # es). v' = (e # es) ! i \<and> w < entry_depth s ((e # es) ! i) \<and>
          (\<forall>j < i. entry_depth s ((e # es) ! j) < entry_depth s ((e # es) ! i))"
    proof
      assume "v' = e \<and> (\<forall>x \<in> set es. entry_depth s x \<le> entry_depth s e)"
      then have "v' = (e # es) ! 0 \<and> w < entry_depth s ((e # es) ! 0)" using True by simp
      then show ?thesis by (intro exI [of _ 0]) simp
    next
      assume "\<exists>i < length es. v' = es ! i \<and> entry_depth s e < entry_depth s (es ! i) \<and>
          (\<forall>j < i. entry_depth s (es ! j) < entry_depth s (es ! i))"
      then obtain i where i: "i < length es" "v' = es ! i"
        "entry_depth s e < entry_depth s (es ! i)"
        "\<forall>j < i. entry_depth s (es ! j) < entry_depth s (es ! i)" by blast
      have "\<forall>j < Suc i. entry_depth s ((e # es) ! j) < entry_depth s ((e # es) ! Suc i)"
        using i(3,4) by (auto simp: less_Suc_eq_0_disj)
      moreover have "w < entry_depth s ((e # es) ! Suc i)" using True i(3) by simp
      ultimately show ?thesis using i(1,2) by (intro exI [of _ "Suc i"]) simp
    qed
    moreover have "w \<le> w'" using True b by simp
    ultimately show ?thesis using a b c by simp
  next
    case False
    with Cons.prems have run: "getVictim_loop s es v w = (v', w')" by simp
    from Cons.IH [OF run Cons.prems(2)]
    have a: "w' = entry_depth s v'" and b: "w \<le> w'"
      and c: "\<forall>x \<in> set es. entry_depth s x \<le> w'"
      and d: "(v' = v \<and> (\<forall>x \<in> set es. entry_depth s x \<le> w)) \<or>
      (\<exists>i < length es. v' = es ! i \<and> w < entry_depth s (es ! i) \<and>
          (\<forall>j < i. entry_depth s (es ! j) < entry_depth s (es ! i)))"
      by blast+
    have e_le: "entry_depth s e \<le> w" using False by simp
    from d have "(v' = v \<and> (\<forall>x \<in> set (e # es). entry_depth s x \<le> w)) \<or>
      (\<exists>i < length (e # es). v' = (e # es) ! i \<and> w < entry_depth s ((e # es) ! i) \<and>
          (\<forall>j < i. entry_depth s ((e # es) ! j) < entry_depth s ((e # es) ! i)))"
    proof
      assume "v' = v \<and> (\<forall>x \<in> set es. entry_depth s x \<le> w)"
      then show ?thesis using e_le by simp
    next
      assume "\<exists>i < length es. v' = es ! i \<and> w < entry_depth s (es ! i) \<and>
          (\<forall>j < i. entry_depth s (es ! j) < entry_depth s (es ! i))"
      then obtain i where i: "i < length es" "v' = es ! i"
        "w < entry_depth s (es ! i)"
        "\<forall>j < i. entry_depth s (es ! j) < entry_depth s (es ! i)" by blast
      have "\<forall>j < Suc i. entry_depth s ((e # es) ! j) < entry_depth s ((e # es) ! Suc i)"
        using i(3,4) e_le by (auto simp: less_Suc_eq_0_disj)
      then have "\<exists>k < length (e # es). v' = (e # es) ! k \<and> w < entry_depth s ((e # es) ! k) \<and>
          (\<forall>j < k. entry_depth s ((e # es) ! j) < entry_depth s ((e # es) ! k))"
        using i(1,2,3) by (intro exI [of _ "Suc i"]) simp
      then show ?thesis by blast
    qed
    moreover have "\<forall>x \<in> set (e # es). entry_depth s x \<le> w'" using c e_le b by auto
    ultimately show ?thesis using a b by blast
  qed
qed

subsection \<open>The table and the single operations\<close>

lemma unat_ucast_32_8: "x < 256 \<Longrightarrow> unat (ucast (x::32 word) :: 8 word) = unat x"
proof -
  assume "x < 256"
  then have "unat x < 2 ^ 8" by (simp add: word_less_nat_alt)
  then show ?thesis by (simp add: unsigned_ucast_eq take_bit_nat_eq_self)
qed

lemma IPV_length: "length IPV = 17"
  by (simp add: IPV_def)

lemma IPV_entries: "\<forall>x \<in> set IPV. x < 16"
  by (simp add: IPV_def)

lemma IPV_nth_bound: "n < 17 \<Longrightarrow> IPV ! n < 16"
  using IPV_entries nth_mem [of n IPV] by (simp add: IPV_length)

lemma IPV_insert: "IPV ! unat IPV_K = 13"
  by (simp add: IPV_def IPV_K_def)

lemma ctor_useIpv: "useIpv (fst (LRUIPVRP_ctor numWays)) = (numWays = IPV_K)"
  by (simp add: LRUIPVRP_ctor_def Let_def)

lemma ctor_ways: "ways (fst (LRUIPVRP_ctor numWays)) = numWays"
  by (simp add: LRUIPVRP_ctor_def Let_def)

lemma clamp_index:
  "unat (if (ucast (d::8 word) :: 32 word) \<ge> IPV_K then IPV_K - 1 else ucast d)
     = (if unat d < unat IPV_K then unat d else unat IPV_K - 1)"
  by (simp add: word_le_nat_alt unat_ucast_8_32 IPV_K_def)

lemma touch_useIpv:
  "useIpv this \<Longrightarrow>
     depth (touch this rd s rd) =
       ucast (IPV ! (if unat (depth (s rd)) < unat IPV_K then unat (depth (s rd))
                     else unat IPV_K - 1))"
  by (simp add: touch_def Let_def clamp_index)

lemma touch_useIpv_unat:
  assumes "useIpv this"
  shows "unat (depth (touch this rd s rd)) =
       unat (IPV ! (if unat (depth (s rd)) < unat IPV_K then unat (depth (s rd))
                     else unat IPV_K - 1))"
proof -
  let ?i = "if unat (depth (s rd)) < unat IPV_K then unat (depth (s rd)) else unat IPV_K - 1"
  have "?i < 17" by (simp add: IPV_K_def)
  then have "IPV ! ?i < 16" by (rule IPV_nth_bound)
  then have "IPV ! ?i < 256" by (simp add: word_less_nat_alt)
  then have "unat (ucast (IPV ! ?i) :: 8 word) = unat (IPV ! ?i)" by (rule unat_ucast_32_8)
  then show ?thesis using touch_useIpv [OF assms, of rd s] by simp
qed

lemma reset_useIpv: "useIpv this \<Longrightarrow> depth (reset this rd s rd) = 13"
  by (simp add: reset_def IPV_insert)

lemma reset_frame: "rd' \<noteq> rd \<Longrightarrow> reset this rd s rd' = s rd'"
  by (simp add: reset_def)

lemma touch_frame: "rd' \<noteq> rd \<Longrightarrow> touch this rd s rd' = s rd'"
  by (simp add: touch_def Let_def)

subsection \<open>Victim selection\<close>

text \<open>
  Claim C1. For every non-empty candidate sequence, \<open>getVictim\<close> returns the earliest
  candidate in iteration order whose depth is maximal: the result is the candidate at
  some index \<open>i\<close>, the depth of every candidate of the sequence is at most the depth of
  that one, and every candidate at an earlier index has a strictly smaller depth (so
  none of them has the maximal depth). In particular, for candidates with depths
  \<open>[3, 7, 7, 2]\<close> the candidate at index 1 is returned.
\<close>

theorem getVictim_first_max:
  "(candidates \<noteq> [] \<longrightarrow>
      (\<exists>i < length candidates.
          fst (getVictim this candidates s) = Inr (candidates ! i) \<and>
          (\<forall>j < length candidates.
              depth (s (replacementData (candidates ! j)))
                \<le> depth (s (replacementData (candidates ! i)))) \<and>
          (\<forall>j < i.
              depth (s (replacementData (candidates ! j)))
                < depth (s (replacementData (candidates ! i)))))) \<and>
   (map (\<lambda>e. depth (s (replacementData e))) candidates = [3, 7, 7, 2] \<longrightarrow>
      fst (getVictim this candidates s) = Inr (candidates ! 1))"
proof (intro conjI impI)
  assume ne: "candidates \<noteq> []"
  obtain v' w' where run:
    "getVictim_loop s candidates (candidates ! 0) (entry_depth s (candidates ! 0)) = (v', w')"
    by (cases "getVictim_loop s candidates (candidates ! 0) (entry_depth s (candidates ! 0))")
  have res: "fst (getVictim this candidates s) = Inr v'"
    using ne run by (simp add: getVictim_def Let_def)
  from getVictim_loop_spec [OF run refl]
  have w': "w' = entry_depth s v'"
    and all_le: "\<forall>e \<in> set candidates. entry_depth s e \<le> w'"
    and pos: "(v' = candidates ! 0 \<and>
                 (\<forall>e \<in> set candidates. entry_depth s e \<le> entry_depth s (candidates ! 0))) \<or>
              (\<exists>i < length candidates. v' = candidates ! i \<and>
                 entry_depth s (candidates ! 0) < entry_depth s (candidates ! i) \<and>
                 (\<forall>j < i. entry_depth s (candidates ! j) < entry_depth s (candidates ! i)))"
    by blast+
  from pos obtain i where i: "i < length candidates" "v' = candidates ! i"
    "\<forall>j < i. entry_depth s (candidates ! j) < entry_depth s (candidates ! i)"
  proof
    assume "v' = candidates ! 0 \<and>
       (\<forall>e \<in> set candidates. entry_depth s e \<le> entry_depth s (candidates ! 0))"
    then show ?thesis using ne that [of 0] by simp
  next
    assume "\<exists>i < length candidates. v' = candidates ! i \<and>
       entry_depth s (candidates ! 0) < entry_depth s (candidates ! i) \<and>
       (\<forall>j < i. entry_depth s (candidates ! j) < entry_depth s (candidates ! i))"
    then show ?thesis using that by blast
  qed
  have "\<forall>j < length candidates.
          entry_depth s (candidates ! j) \<le> entry_depth s (candidates ! i)"
    using all_le w' i(2) by simp
  then have le8: "\<forall>j < length candidates.
          depth (s (replacementData (candidates ! j)))
            \<le> depth (s (replacementData (candidates ! i)))"
    by (simp add: entry_depth_def ucast_up_le)
  have lt8: "\<forall>j < i. depth (s (replacementData (candidates ! j)))
            < depth (s (replacementData (candidates ! i)))"
    using i(3) by (simp add: entry_depth_def ucast_up_less)
  show "\<exists>i < length candidates.
          fst (getVictim this candidates s) = Inr (candidates ! i) \<and>
          (\<forall>j < length candidates.
              depth (s (replacementData (candidates ! j)))
                \<le> depth (s (replacementData (candidates ! i)))) \<and>
          (\<forall>j < i.
              depth (s (replacementData (candidates ! j)))
                < depth (s (replacementData (candidates ! i))))"
    using res i(1,2) le8 lt8 by blast
next
  assume m: "map (\<lambda>e. depth (s (replacementData e))) candidates = [3, 7, 7, 2]"
  then obtain a b c d where cs: "candidates = [a, b, c, d]"
    and ds: "depth (s (replacementData a)) = 3" "depth (s (replacementData b)) = 7"
            "depth (s (replacementData c)) = 7" "depth (s (replacementData d)) = 2"
    by (auto simp: map_eq_Cons_conv)
  show "fst (getVictim this candidates s) = Inr (candidates ! 1)"
    by (simp add: cs getVictim_def Let_def entry_depth_def ds)
qed

theorem getVictim_first_max_witness:
  "[\<lparr>handle = 0, replacementData = 10\<rparr>, \<lparr>handle = 1, replacementData = 11\<rparr>,
    \<lparr>handle = 2, replacementData = 12\<rparr>, \<lparr>handle = 3, replacementData = 13\<rparr>] \<noteq> [] \<and>
   map (\<lambda>e. depth (((\<lambda>_. \<lparr>depth = 0\<rparr>)
          (10 := \<lparr>depth = 3\<rparr>, 11 := \<lparr>depth = 7\<rparr>, 12 := \<lparr>depth = 7\<rparr>, 13 := \<lparr>depth = 2\<rparr>))
          (replacementData e)))
     [\<lparr>handle = 0, replacementData = 10\<rparr>, \<lparr>handle = 1, replacementData = 11\<rparr>,
      \<lparr>handle = 2, replacementData = 12\<rparr>, \<lparr>handle = 3, replacementData = 13\<rparr>]
     = [3, 7, 7, 2] \<and>
   fst (getVictim (fst (LRUIPVRP_ctor 16))
     [\<lparr>handle = 0, replacementData = 10\<rparr>, \<lparr>handle = 1, replacementData = 11\<rparr>,
      \<lparr>handle = 2, replacementData = 12\<rparr>, \<lparr>handle = 3, replacementData = 13\<rparr>]
     ((\<lambda>_. \<lparr>depth = 0\<rparr>)
          (10 := \<lparr>depth = 3\<rparr>, 11 := \<lparr>depth = 7\<rparr>, 12 := \<lparr>depth = 7\<rparr>, 13 := \<lparr>depth = 2\<rparr>)))
     = Inr \<lparr>handle = 1, replacementData = 11\<rparr>"
  using getVictim_first_max [of
     "[\<lparr>handle = 0, replacementData = 10\<rparr>, \<lparr>handle = 1, replacementData = 11\<rparr>,
      \<lparr>handle = 2, replacementData = 12\<rparr>, \<lparr>handle = 3, replacementData = 13\<rparr>]"
     "fst (LRUIPVRP_ctor 16)"
     "(\<lambda>_. \<lparr>depth = 0\<rparr>)
          (10 := \<lparr>depth = 3\<rparr>, 11 := \<lparr>depth = 7\<rparr>, 12 := \<lparr>depth = 7\<rparr>, 13 := \<lparr>depth = 2\<rparr>)"]
  by simp

subsection \<open>Exact mode\<close>

text \<open>
  Claim C2. For an instance constructed with associativity \<open>IPV_K = 16\<close>, \<open>touch\<close> on
  a line of current depth \<open>i\<close> sets its depth to \<open>IPV ! i'\<close>, where \<open>i' = i\<close> if
  \<open>i < IPV_K\<close> and \<open>i' = IPV_K - 1\<close> otherwise (the defensive clamp). With the shipped
  table a line at depth 13 is promoted to depth 0, and a freshly allocated line that is
  inserted and then hit twice has depths 13, then 0, then 0.
\<close>

theorem touch_exact_promotes:
  assumes "numWays = IPV_K"
  shows "unat (depth (touch (fst (LRUIPVRP_ctor numWays)) rd s rd)) =
           unat (IPV ! (if unat (depth (s rd)) < unat IPV_K then unat (depth (s rd))
                        else unat IPV_K - 1)) \<and>
         (depth (s rd) = 13 \<longrightarrow>
            depth (touch (fst (LRUIPVRP_ctor numWays)) rd s rd) = 0) \<and>
         depth (reset (fst (LRUIPVRP_ctor numWays)) rd (s(rd := instantiateEntry)) rd) = 13 \<and>
         depth (touch (fst (LRUIPVRP_ctor numWays)) rd
                  (reset (fst (LRUIPVRP_ctor numWays)) rd (s(rd := instantiateEntry))) rd) = 0 \<and>
         depth (touch (fst (LRUIPVRP_ctor numWays)) rd
                  (touch (fst (LRUIPVRP_ctor numWays)) rd
                     (reset (fst (LRUIPVRP_ctor numWays)) rd (s(rd := instantiateEntry)))) rd) = 0"
proof -
  let ?p = "fst (LRUIPVRP_ctor numWays)"
  have ipv: "useIpv ?p" using assms by (simp add: ctor_useIpv)
  have general: "unat (depth (touch ?p rd s rd)) =
           unat (IPV ! (if unat (depth (s rd)) < unat IPV_K then unat (depth (s rd))
                        else unat IPV_K - 1))"
    by (rule touch_useIpv_unat [OF ipv])
  have at13: "depth (t rd) = 13 \<Longrightarrow> depth (touch ?p rd t rd) = 0" for t
    using touch_useIpv [OF ipv, of rd t] by (simp add: IPV_def IPV_K_def)
  have at0: "depth (t rd) = 0 \<Longrightarrow> depth (touch ?p rd t rd) = 0" for t
    using touch_useIpv [OF ipv, of rd t] by (simp add: IPV_def IPV_K_def)
  have ins: "depth (reset ?p rd t rd) = 13" for t
    by (rule reset_useIpv [OF ipv])
  have hit1: "depth (touch ?p rd (reset ?p rd t) rd) = 0" for t
    using at13 [of "reset ?p rd t"] ins [of t] by simp
  have hit2: "depth (touch ?p rd (touch ?p rd (reset ?p rd t)) rd) = 0" for t
    using at0 [of "touch ?p rd (reset ?p rd t)"] hit1 [of t] by simp
  show ?thesis using general at13 ins hit1 hit2 by blast
qed

theorem touch_exact_promotes_witness:
  "(16 :: 32 word) = IPV_K \<and>
   depth (touch (fst (LRUIPVRP_ctor 16)) 0 (\<lambda>_. \<lparr>depth = 13\<rparr>) 0) = 0 \<and>
   unat (depth (touch (fst (LRUIPVRP_ctor 16)) 0 (\<lambda>_. \<lparr>depth = 13\<rparr>) 0)) = unat (IPV ! 13)"
  using touch_exact_promotes [of 16 0 "\<lambda>_. \<lparr>depth = 13\<rparr>"]
  by (simp add: IPV_K_def IPV_def)

text \<open>
  Claim C3. For an instance constructed with associativity \<open>IPV_K = 16\<close>, \<open>reset\<close>
  sets the depth of the line to the insertion entry of the table, \<open>IPV ! IPV_K\<close>,
  which is 13. The result does not depend on the depth the line had before (any prior
  depth \<open>d\<close> gives the same store), and a second call changes nothing.
\<close>

theorem reset_exact_inserts:
  assumes "numWays = IPV_K"
  shows "unat (depth (reset (fst (LRUIPVRP_ctor numWays)) rd s rd)) = unat (IPV ! unat IPV_K) \<and>
         IPV ! unat IPV_K = 13 \<and>
         depth (reset (fst (LRUIPVRP_ctor numWays)) rd s rd) = 13 \<and>
         reset (fst (LRUIPVRP_ctor numWays)) rd (s(rd := (s rd)\<lparr>depth := d\<rparr>))
           = reset (fst (LRUIPVRP_ctor numWays)) rd s \<and>
         reset (fst (LRUIPVRP_ctor numWays)) rd (reset (fst (LRUIPVRP_ctor numWays)) rd s)
           = reset (fst (LRUIPVRP_ctor numWays)) rd s"
proof -
  let ?p = "fst (LRUIPVRP_ctor numWays)"
  have ipv: "useIpv ?p" using assms by (simp add: ctor_useIpv)
  have ins: "depth (reset ?p rd s rd) = 13" by (rule reset_useIpv [OF ipv])
  then have "unat (depth (reset ?p rd s rd)) = unat (IPV ! unat IPV_K)"
    by (simp add: IPV_insert)
  moreover have "reset ?p rd (s(rd := (s rd)\<lparr>depth := d\<rparr>)) = reset ?p rd s"
    by (simp add: reset_def)
  moreover have "reset ?p rd (reset ?p rd s) = reset ?p rd s"
    by (simp add: reset_def)
  ultimately show ?thesis using ins IPV_insert by simp
qed

theorem reset_exact_inserts_witness:
  "(16 :: 32 word) = IPV_K \<and>
   depth (reset (fst (LRUIPVRP_ctor 16)) 0 (\<lambda>_. \<lparr>depth = 200\<rparr>) 0) = 13"
  using reset_exact_inserts [of 16 0 "\<lambda>_. \<lparr>depth = 200\<rparr>"]
  by (simp add: IPV_K_def)

text \<open>
  Claim C4. The shipped table is well formed: it has \<open>IPV_K + 1\<close> entries, every
  promotion entry \<open>IPV ! i\<close> with \<open>i < IPV_K\<close> and the insertion entry \<open>IPV ! IPV_K\<close>
  are below \<open>IPV_K = 16\<close>. Consequently, for an instance constructed with associativity
  16 and any starting depth of the line (any byte, 0 to 255), the depth after one
  \<open>reset\<close> and the depth after one \<open>touch\<close> are below \<open>IPV_K\<close>.
\<close>

theorem IPV_well_formed:
  "length IPV = unat IPV_K + 1 \<and>
   (\<forall>i < unat IPV_K. IPV ! i < IPV_K) \<and>
   IPV ! unat IPV_K < IPV_K \<and>
   (numWays = IPV_K \<longrightarrow>
      unat (depth (reset (fst (LRUIPVRP_ctor numWays)) rd s rd)) < unat IPV_K \<and>
      unat (depth (touch (fst (LRUIPVRP_ctor numWays)) rd s rd)) < unat IPV_K)"
proof (intro conjI impI allI)
  show "length IPV = unat IPV_K + 1" by (simp add: IPV_length IPV_K_def)
next
  fix i assume "i < unat IPV_K"
  then have "i < 17" by (simp add: IPV_K_def)
  then show "IPV ! i < IPV_K" using IPV_nth_bound by (simp add: IPV_K_def)
next
  show "IPV ! unat IPV_K < IPV_K" by (simp add: IPV_insert) (simp add: IPV_K_def)
next
  assume k: "numWays = IPV_K"
  then have ipv: "useIpv (fst (LRUIPVRP_ctor numWays))" by (simp add: ctor_useIpv)
  show "unat (depth (reset (fst (LRUIPVRP_ctor numWays)) rd s rd)) < unat IPV_K"
    using reset_useIpv [OF ipv, of rd s] by (simp add: IPV_K_def)
next
  assume k: "numWays = IPV_K"
  then have ipv: "useIpv (fst (LRUIPVRP_ctor numWays))" by (simp add: ctor_useIpv)
  let ?i = "if unat (depth (s rd)) < unat IPV_K then unat (depth (s rd)) else unat IPV_K - 1"
  have "?i < 17" by (simp add: IPV_K_def)
  then have "IPV ! ?i < 16" by (rule IPV_nth_bound)
  then have "unat (IPV ! ?i) < 16" by (simp add: word_less_nat_alt)
  then show "unat (depth (touch (fst (LRUIPVRP_ctor numWays)) rd s rd)) < unat IPV_K"
    using touch_useIpv_unat [OF ipv, of rd s] by (simp add: IPV_K_def)
qed

theorem IPV_well_formed_witness:
  "(16 :: 32 word) = IPV_K \<and>
   IPV ! 15 < IPV_K \<and>
   unat (depth (reset (fst (LRUIPVRP_ctor 16)) 0 (\<lambda>_. \<lparr>depth = 255\<rparr>) 0)) < unat IPV_K \<and>
   unat (depth (touch (fst (LRUIPVRP_ctor 16)) 0 (\<lambda>_. \<lparr>depth = 255\<rparr>) 0)) < unat IPV_K"
  using IPV_well_formed [of 16 0 "\<lambda>_. \<lparr>depth = 255\<rparr>"]
  by (simp add: IPV_K_def)

subsection \<open>Degraded mode\<close>

text \<open>
  In degraded mode \<open>reset\<close> stores \<open>ways - 1\<close> cut to a byte; for an associativity
  from 1 to 256 that is \<open>ways - 1\<close> itself.
\<close>

lemma reset_degraded:
  "numWays \<noteq> IPV_K \<Longrightarrow>
     depth (reset (fst (LRUIPVRP_ctor numWays)) rd s rd) = ucast (numWays - 1)"
  by (simp add: reset_def ctor_useIpv ctor_ways)

lemma reset_degraded_in_range:
  assumes "numWays \<noteq> IPV_K" and "0 < unat numWays" and "unat numWays \<le> 256"
  shows "unat (depth (reset (fst (LRUIPVRP_ctor numWays)) rd s rd)) = unat numWays - 1"
proof -
  have "numWays \<noteq> 0" using assms(2) by auto
  then have sub: "unat (numWays - 1) = unat numWays - 1"
    by (simp add: unat_minus_one)
  then have "unat (numWays - 1) < 256" using assms(2,3) by simp
  then have "numWays - 1 < 256" by (simp add: word_less_nat_alt)
  then have "unat (ucast (numWays - 1) :: 8 word) = unat (numWays - 1)"
    by (rule unat_ucast_32_8)
  then show ?thesis using reset_degraded [OF assms(1), of rd s] sub by simp
qed

text \<open>
  Claim C5. In degraded mode \<open>reset\<close> is meant to set the depth to exactly
  \<open>associativity - 1\<close> for every positive associativity. The source stores
  \<open>static_cast<uint8_t>(ways - 1)\<close>: an instance constructed with associativity 257
  is in degraded mode (the constructor warns), \<open>ways - 1\<close> is 256, and the depth stored
  by \<open>reset\<close> is 0, the most protected position instead of the most evictable one.
\<close>

theorem reset_degraded_truncates:
  "snd (LRUIPVRP_ctor 257) = [Warn 257 16] \<and>
   useIpv (fst (LRUIPVRP_ctor 257)) = False \<and>
   unat (ways (fst (LRUIPVRP_ctor 257)) - 1) = 256 \<and>
   unat (depth (reset (fst (LRUIPVRP_ctor 257)) rd s rd)) = 0"
  by (simp add: LRUIPVRP_ctor_def Let_def IPV_K_def reset_def)

text \<open>
  Claim C6. For an instance constructed with an associativity other than \<open>IPV_K = 16\<close>,
  \<open>touch\<close> sets the depth of the line to 0, whatever the store (and so the prior depth)
  was. With associativity 2, \<open>reset\<close> gives depth 1, a following \<open>touch\<close> gives depth
  0, and \<open>getVictim\<close> on two lines of depths 0 and 1 returns the line of depth 1, in
  either order of the two candidates.
\<close>

theorem touch_degraded_to_mru:
  "(numWays \<noteq> IPV_K \<longrightarrow>
      depth (touch (fst (LRUIPVRP_ctor numWays)) rd s rd) = 0) \<and>
   depth (reset (fst (LRUIPVRP_ctor 2)) rd s rd) = 1 \<and>
   depth (touch (fst (LRUIPVRP_ctor 2)) rd (reset (fst (LRUIPVRP_ctor 2)) rd s) rd) = 0 \<and>
   (depth (s (replacementData a)) = 0 \<and> depth (s (replacementData b)) = 1 \<longrightarrow>
      fst (getVictim (fst (LRUIPVRP_ctor 2)) [a, b] s) = Inr b \<and>
      fst (getVictim (fst (LRUIPVRP_ctor 2)) [b, a] s) = Inr b)"
proof (intro conjI impI)
  assume "numWays \<noteq> IPV_K"
  then show "depth (touch (fst (LRUIPVRP_ctor numWays)) rd s rd) = 0"
    by (simp add: touch_def ctor_useIpv)
next
  have two: "(2 :: 32 word) \<noteq> IPV_K" by (simp add: IPV_K_def)
  show "depth (reset (fst (LRUIPVRP_ctor 2)) rd s rd) = 1"
    using reset_degraded [OF two, of rd s] by simp
  show "depth (touch (fst (LRUIPVRP_ctor 2)) rd (reset (fst (LRUIPVRP_ctor 2)) rd s) rd) = 0"
    using two by (simp add: touch_def ctor_useIpv)
next
  assume ds: "depth (s (replacementData a)) = 0 \<and> depth (s (replacementData b)) = 1"
  show "fst (getVictim (fst (LRUIPVRP_ctor 2)) [a, b] s) = Inr b"
    using ds by (simp add: getVictim_def Let_def entry_depth_def)
  show "fst (getVictim (fst (LRUIPVRP_ctor 2)) [b, a] s) = Inr b"
    using ds by (simp add: getVictim_def Let_def entry_depth_def)
qed

theorem touch_degraded_to_mru_witness:
  "(4 :: 32 word) \<noteq> IPV_K \<and>
   depth (touch (fst (LRUIPVRP_ctor 4)) 0 (\<lambda>_. \<lparr>depth = 3\<rparr>) 0) = 0 \<and>
   depth (((\<lambda>_. \<lparr>depth = 0\<rparr>)(8 := \<lparr>depth = 1\<rparr>)) (replacementData \<lparr>handle = 0, replacementData = 7\<rparr>)) = 0 \<and>
   depth (((\<lambda>_. \<lparr>depth = 0\<rparr>)(8 := \<lparr>depth = 1\<rparr>)) (replacementData \<lparr>handle = 1, replacementData = 8\<rparr>)) = 1 \<and>
   fst (getVictim (fst (LRUIPVRP_ctor 2))
          [\<lparr>handle = 0, replacementData = 7\<rparr>, \<lparr>handle = 1, replacementData = 8\<rparr>]
          ((\<lambda>_. \<lparr>depth = 0\<rparr>)(8 := \<lparr>depth = 1\<rparr>)))
     = Inr \<lparr>handle = 1, replacementData = 8\<rparr>"
proof -
  have mode: "(4 :: 32 word) \<noteq> IPV_K" by (simp add: IPV_K_def)
  have hit: "depth (touch (fst (LRUIPVRP_ctor 4)) 0 (\<lambda>_. \<lparr>depth = 3\<rparr>) 0) = 0"
    using mode touch_degraded_to_mru [of 4 0 "\<lambda>_. \<lparr>depth = 3\<rparr>"] by simp
  have victim: "fst (getVictim (fst (LRUIPVRP_ctor 2))
          [\<lparr>handle = 0, replacementData = 7\<rparr>, \<lparr>handle = 1, replacementData = 8\<rparr>]
          ((\<lambda>_. \<lparr>depth = 0\<rparr>)(8 := \<lparr>depth = 1\<rparr>)))
     = Inr \<lparr>handle = 1, replacementData = 8\<rparr>"
    using touch_degraded_to_mru [of 4 0 "(\<lambda>_. \<lparr>depth = 0\<rparr>)(8 := \<lparr>depth = 1\<rparr>)"
       "\<lparr>handle = 0, replacementData = 7\<rparr>" "\<lparr>handle = 1, replacementData = 8\<rparr>"]
    by simp
  show ?thesis using mode hit victim by simp
qed

subsection \<open>The precondition of victim selection\<close>

text \<open>
  Claim C7. \<open>getVictim\<close> on an empty candidate sequence fails its assertion (the
  error value \<open>AssertionFailure\<close>, which ends the program: no result is returned).
  On a non-empty sequence the assertion branch is not taken and the result is one of
  the candidates.
\<close>

theorem getVictim_nonempty_contract:
  "getVictim this [] s = (Inl AssertionFailure, s) \<and>
   (candidates \<noteq> [] \<longrightarrow>
      (\<exists>e \<in> set candidates. fst (getVictim this candidates s) = Inr e))"
proof (intro conjI impI)
  show "getVictim this [] s = (Inl AssertionFailure, s)" by (simp add: getVictim_def)
next
  assume ne: "candidates \<noteq> []"
  obtain v' w' where run:
    "getVictim_loop s candidates (candidates ! 0) (entry_depth s (candidates ! 0)) = (v', w')"
    by (cases "getVictim_loop s candidates (candidates ! 0) (entry_depth s (candidates ! 0))")
  have res: "fst (getVictim this candidates s) = Inr v'"
    using ne run by (simp add: getVictim_def Let_def)
  from getVictim_loop_spec [OF run refl]
  have "v' = candidates ! 0 \<or> (\<exists>i < length candidates. v' = candidates ! i)" by blast
  then have "v' \<in> set candidates" using ne by auto
  then show "\<exists>e \<in> set candidates. fst (getVictim this candidates s) = Inr e"
    using res by blast
qed

theorem getVictim_nonempty_contract_witness:
  "[\<lparr>handle = 5, replacementData = 9\<rparr>] \<noteq> [] \<and>
   fst (getVictim (fst (LRUIPVRP_ctor 16)) [\<lparr>handle = 5, replacementData = 9\<rparr>]
          (\<lambda>_. \<lparr>depth = 4\<rparr>)) = Inr \<lparr>handle = 5, replacementData = 9\<rparr>"
  using getVictim_nonempty_contract [of "fst (LRUIPVRP_ctor 16)" "\<lambda>_. \<lparr>depth = 4\<rparr>"
     "[\<lparr>handle = 5, replacementData = 9\<rparr>]"]
  by simp

subsection \<open>Invalidation\<close>

text \<open>
  Claim C8. \<open>invalidate\<close> is a no-op on policy state: for every policy instance, every
  per-line state pointer and every store, the store after the call equals the store
  before it; in particular the depth of the invalidated line, and of every other line,
  is unchanged.
\<close>

theorem invalidate_noop:
  "invalidate this rd s = s \<and> depth (invalidate this rd s rd') = depth (s rd')"
  by (simp add: invalidate_def)

subsection \<open>The two source variants\<close>

lemma getVictim_loop_strict_eq:
  "getVictim_loop_strict s es v w = getVictim_loop s es v w"
  by (induction es arbitrary: v w) simp_all

text \<open>
  Claim C9. For associativity \<open>IPV_K = 16\<close> the strict constructor succeeds, the
  lenient constructor emits no warning, and the two instances behave alike: for every
  line pointer, store and candidate sequence, \<open>reset\<close>, \<open>touch\<close>, \<open>invalidate\<close>
  and \<open>getVictim\<close> of the lenient variant give the same store (and the same result) as
  those of the strict variant.
\<close>

theorem variants_agree_at_k:
  assumes "numWays = IPV_K"
  shows "\<exists>q. LRUIPVRP_strict_ctor numWays = Inr q \<and>
           snd (LRUIPVRP_ctor numWays) = [] \<and>
           reset (fst (LRUIPVRP_ctor numWays)) rd s = reset_strict q rd s \<and>
           touch (fst (LRUIPVRP_ctor numWays)) rd s = touch_strict q rd s \<and>
           invalidate (fst (LRUIPVRP_ctor numWays)) rd s = invalidate_strict q rd s \<and>
           getVictim (fst (LRUIPVRP_ctor numWays)) candidates s
             = getVictim_strict q candidates s"
proof -
  let ?p = "fst (LRUIPVRP_ctor numWays)"
  let ?q = "\<lparr>ways_strict = numWays\<rparr>"
  have ipv: "useIpv ?p" using assms by (simp add: ctor_useIpv)
  have k: "IPV_K_strict = IPV_K" by (simp add: IPV_K_strict_def IPV_K_def)
  have t: "IPV_strict = IPV" by (simp add: IPV_strict_def IPV_def)
  have "LRUIPVRP_strict_ctor numWays = Inr ?q"
    using assms by (simp add: LRUIPVRP_strict_ctor_def Let_def k)
  moreover have "snd (LRUIPVRP_ctor numWays) = []"
    using assms by (simp add: LRUIPVRP_ctor_def Let_def)
  moreover have "reset ?p rd s = reset_strict ?q rd s"
    using ipv by (simp add: reset_def reset_strict_def k t)
  moreover have "touch ?p rd s = touch_strict ?q rd s"
    using ipv by (simp add: touch_def touch_strict_def Let_def k t)
  moreover have "invalidate ?p rd s = invalidate_strict ?q rd s"
    by (simp add: invalidate_def invalidate_strict_def)
  moreover have "getVictim ?p candidates s = getVictim_strict ?q candidates s"
    by (simp add: getVictim_def getVictim_strict_def getVictim_loop_strict_eq)
  ultimately show ?thesis by blast
qed

theorem variants_agree_at_k_witness:
  "(16 :: 32 word) = IPV_K \<and>
   (\<exists>q. LRUIPVRP_strict_ctor 16 = Inr q \<and>
      touch (fst (LRUIPVRP_ctor 16)) 0 (\<lambda>_. \<lparr>depth = 15\<rparr>)
        = touch_strict q 0 (\<lambda>_. \<lparr>depth = 15\<rparr>) \<and>
      getVictim (fst (LRUIPVRP_ctor 16)) [\<lparr>handle = 0, replacementData = 0\<rparr>] (\<lambda>_. \<lparr>depth = 15\<rparr>)
        = getVictim_strict q [\<lparr>handle = 0, replacementData = 0\<rparr>] (\<lambda>_. \<lparr>depth = 15\<rparr>))"
proof -
  have k: "(16 :: 32 word) = IPV_K" by (simp add: IPV_K_def)
  from variants_agree_at_k [OF k, of 0 "\<lambda>_. \<lparr>depth = 15\<rparr>" "[\<lparr>handle = 0, replacementData = 0\<rparr>]"]
  show ?thesis using k by blast
qed

subsection \<open>Victim selection writes nothing\<close>

text \<open>
  Claim C10. \<open>getVictim\<close> is read-only: the store after the call is the store before
  it, and for every non-empty candidate sequence the depth of every candidate after the
  call equals its depth before the call.
\<close>

theorem getVictim_read_only:
  "snd (getVictim this candidates s) = s \<and>
   (candidates \<noteq> [] \<longrightarrow>
      (\<forall>e \<in> set candidates.
          depth (snd (getVictim this candidates s) (replacementData e))
            = depth (s (replacementData e))))"
proof -
  have "snd (getVictim this candidates s) = s"
    by (simp add: getVictim_def Let_def)
  then show ?thesis by simp
qed

theorem getVictim_read_only_witness:
  "[\<lparr>handle = 0, replacementData = 3\<rparr>, \<lparr>handle = 1, replacementData = 4\<rparr>] \<noteq> [] \<and>
   depth (snd (getVictim (fst (LRUIPVRP_ctor 16))
                 [\<lparr>handle = 0, replacementData = 3\<rparr>, \<lparr>handle = 1, replacementData = 4\<rparr>]
                 ((\<lambda>_. \<lparr>depth = 0\<rparr>)(3 := \<lparr>depth = 6\<rparr>, 4 := \<lparr>depth = 9\<rparr>)))
            (replacementData \<lparr>handle = 1, replacementData = 4\<rparr>)) = 9"
  using getVictim_read_only [of "fst (LRUIPVRP_ctor 16)"
     "[\<lparr>handle = 0, replacementData = 3\<rparr>, \<lparr>handle = 1, replacementData = 4\<rparr>]"
     "(\<lambda>_. \<lparr>depth = 0\<rparr>)(3 := \<lparr>depth = 6\<rparr>, 4 := \<lparr>depth = 9\<rparr>)"]
  by simp

end
